theory Spec2Isabelle
  imports Complex_Main "HOL-Library.Sublist"
begin

section \<open>JavaScript values, strings and the platform's functions\<close>

text \<open>
  The routes of the repository are Next.js handlers written in JavaScript. Their strings
  are modelled as \<open>string\<close>: one \<open>char\<close> per code unit, for the code units below 256.
  The code units U+2028 and U+2029 (line terminators too) and the white space above U+00A0
  lie outside this range. A value that may be \<open>undefined\<close> is a \<open>json option\<close>, with
  \<open>None\<close> for \<open>undefined\<close>. A JavaScript number read by \<open>JSON.parse\<close> is kept as the
  rational it denotes.
\<close>

datatype json =
    JNull
  | JBool bool
  | JNum rat
  | JStr string
  | JArr "json list"
  | JObj "(string \<times> json) list"

text \<open>Truthiness, as \<open>if (v)\<close>, \<open>!v\<close>, \<open>a && b\<close> and \<open>a || b\<close> test it.\<close>

fun truthy :: "json option \<Rightarrow> bool" where
  "truthy None = False"
| "truthy (Some JNull) = False"
| "truthy (Some (JBool b)) = b"
| "truthy (Some (JNum n)) = (n \<noteq> 0)"
| "truthy (Some (JStr s)) = (s \<noteq> [])"
| "truthy (Some (JArr xs)) = True"
| "truthy (Some (JObj kvs)) = True"

text \<open>
  \<open>get_prop v k\<close> is \<open>v.k\<close> for a value \<open>v\<close> that is neither \<open>undefined\<close> nor \<open>null\<close> and
  a property name \<open>k\<close> written in the source (\<open>LiveRoom\<close>, \<open>status\<close>, \<open>uhd\<close>, \<open>main\<close>, \<open>flv\<close>,
  ...): the own property of an object read by \<open>JSON.parse\<close>, and \<open>undefined\<close> on a
  boolean, a number, a string or an array, none of which has a property of such a name.
  \<open>JSON.parse\<close> keeps one value per key, so the pairs of a \<open>JObj\<close> it returns have
  distinct keys.
\<close>

fun get_prop :: "json \<Rightarrow> string \<Rightarrow> json option" where
  "get_prop (JObj kvs) k = map_of kvs k"
| "get_prop _ k = None"

text \<open>Optional chaining \<open>v?.k\<close>: \<open>undefined\<close> when \<open>v\<close> is \<open>undefined\<close> or \<open>null\<close>.\<close>

fun opt_chain :: "json option \<Rightarrow> string \<Rightarrow> json option" where
  "opt_chain None k = None"
| "opt_chain (Some JNull) k = None"
| "opt_chain (Some v) k = get_prop v k"

text \<open>
  Plain member access \<open>v.k\<close> or \<open>v[k]\<close>: a \<open>TypeError\<close> when \<open>v\<close> is \<open>undefined\<close> or
  \<open>null\<close>. \<open>Inl\<close> carries the message of the error (as Node.js words it).
\<close>

fun member :: "json option \<Rightarrow> string \<Rightarrow> string + json option" where
  "member None k = Inl (''Cannot read properties of undefined (reading '' @ [CHR 0x27] @ k @ [CHR 0x27] @ '')'')"
| "member (Some JNull) k = Inl (''Cannot read properties of null (reading '' @ [CHR 0x27] @ k @ [CHR 0x27] @ '')'')"
| "member (Some v) k = Inr (get_prop v k)"

subsection \<open>String.prototype.trim, replace(/^@/, ''), toLowerCase\<close>

definition isWhiteSpace :: "char \<Rightarrow> bool" where
  "isWhiteSpace c = (c \<in> set [CHR 0x09, CHR 0x0A, CHR 0x0B, CHR 0x0C, CHR 0x0D, CHR 0x20, CHR 0xA0])"

definition trim :: "string \<Rightarrow> string" where
  "trim s = rev (dropWhile isWhiteSpace (rev (dropWhile isWhiteSpace s)))"

fun strip_at :: "string \<Rightarrow> string" where
  "strip_at [] = []"
| "strip_at (c # cs) = (if c = CHR ''@'' then cs else c # cs)"

definition toLowerCase_char :: "char \<Rightarrow> char" where
  "toLowerCase_char c =
     (let n = (of_char c :: nat) in
      if (65 \<le> n \<and> n \<le> 90) \<or> (192 \<le> n \<and> n \<le> 222 \<and> n \<noteq> 215)
      then char_of (n + 32) else c)"

definition toLowerCase :: "string \<Rightarrow> string" where
  "toLowerCase s = map toLowerCase_char s"

subsection \<open>The two patterns that locate the embedded state document\<close>

definition dq :: char where
  "dq = CHR 0x22"

definition OPEN_TAG :: string where
  "OPEN_TAG = ''<script id='' @ [dq] @ ''SIGI_STATE'' @ [dq]"

definition CLOSE_TAG :: string where
  "CLOSE_TAG = ''</script>''"

definition JSON_TAG :: string where
  "JSON_TAG = OPEN_TAG @ '' type='' @ [dq] @ ''application/json'' @ [dq] @ ''>''"

text \<open>\<open>.\<close> matches every code unit but a line terminator; \<open>[\s\S]\<close> matches every one.\<close>

definition isLineTerminator :: "char \<Rightarrow> bool" where
  "isLineTerminator c = (c = CHR 0x0A \<or> c = CHR 0x0D)"

definition dot :: "char \<Rightarrow> bool" where
  "dot c = (\<not> isLineTerminator c)"

definition any_char :: "char \<Rightarrow> bool" where
  "any_char c = True"

text \<open>
  \<open>[^>]*>\<close>: the greedy class cannot step over the closing bracket, so it stops at the first one;
  when the input ends before one, no shorter choice helps and the match fails.
\<close>

fun skip_attrs :: "string \<Rightarrow> string option" where
  "skip_attrs [] = None"
| "skip_attrs (c # cs) = (if c = CHR ''>'' then Some cs else skip_attrs cs)"

text \<open>
  \<open>(C*?)<\/script>\<close> for a character class \<open>C\<close>: the lazy group grows one code unit at a
  time and stops as soon as the closing tag follows; it fails at a code unit outside
  \<open>C\<close> and at the end of the input.
\<close>

fun lazy_until_close :: "(char \<Rightarrow> bool) \<Rightarrow> string \<Rightarrow> string option" where
  "lazy_until_close C [] = None"
| "lazy_until_close C (c # cs) =
     (if prefix CLOSE_TAG (c # cs) then Some []
      else if C c then map_option ((#) c) (lazy_until_close C cs)
      else None)"

text \<open>\<open>/<script id="SIGI_STATE"[^>]*>(.*?)<\/script>/\<close> tried at the start of \<open>s\<close>; the result is group 1.\<close>

definition match_live_at :: "string \<Rightarrow> string option" where
  "match_live_at s =
     (if prefix OPEN_TAG s
      then (case skip_attrs (drop (length OPEN_TAG) s) of
              None \<Rightarrow> None
            | Some r \<Rightarrow> lazy_until_close dot r)
      else None)"

text \<open>\<open>/<script id="SIGI_STATE" type="application\/json">([\s\S]*?)<\/script>/\<close> at the start of \<open>s\<close>.\<close>

definition match_info_at :: "string \<Rightarrow> string option" where
  "match_info_at s =
     (if prefix JSON_TAG s then lazy_until_close any_char (drop (length JSON_TAG) s) else None)"

text \<open>\<open>html.match(re)\<close> without the \<open>g\<close> flag: the match at the leftmost start that has one.\<close>

fun search :: "(string \<Rightarrow> 'a option) \<Rightarrow> string \<Rightarrow> 'a option" where
  "search m [] = m []"
| "search m (c # cs) = (case m (c # cs) of Some g \<Rightarrow> Some g | None \<Rightarrow> search m cs)"

text \<open>The positions of a text at which a pattern text starts.\<close>

definition occurrences :: "string \<Rightarrow> string \<Rightarrow> nat list" where
  "occurrences pat s = filter (\<lambda>i. prefix pat (drop i s)) [0..<Suc (length s)]"

text \<open>\<open>match && match[1]\<close>: the group when there is a match and the group is not empty.\<close>

definition extract_live :: "string \<Rightarrow> string option" where
  "extract_live html =
     (case search match_live_at html of
        None \<Rightarrow> None
      | Some g \<Rightarrow> if g = [] then None else Some g)"

definition extract_info :: "string \<Rightarrow> string option" where
  "extract_info html =
     (case search match_info_at html of
        None \<Rightarrow> None
      | Some g \<Rightarrow> if g = [] then None else Some g)"

subsection \<open>Requests, responses and the world outside\<close>

text \<open>\<open>req.query.username\<close>: absent, one string, or an array when the parameter is repeated.\<close>

datatype qparam = Absent | Single string | Multi "string list"

text \<open>
  \<open>res.status(code).json(obj)\<close>: the object literal as its fields in order, a field of
  value \<open>undefined\<close> being \<open>None\<close> (it is left out of the text sent);
  \<open>res.status(code).end()\<close> has no body. Response headers are not modelled.
\<close>

datatype response =
    Response nat "(string \<times> json option) list"
  | End nat


record http_response =
  ok :: bool
  status :: nat
  body :: "string + string"

text \<open>
  What a route reads from outside: \<open>fetch\<close>, \<open>JSON.parse\<close> (\<open>None\<close> when it throws) and
  \<open>encodeURIComponent\<close>. \<open>body\<close> is \<open>response.text()\<close>. When \<open>fetch\<close> or
  \<open>response.text()\<close> rejects, \<open>Inl\<close> carries the text the route sends for the error:
  \<open>e.message\<close> in the live-status and capture routes, \<open>String(e)\<close> in the user-info
  route.
\<close>

record env =
  fetch :: "string \<Rightarrow> string + http_response"
  JSON_parse :: "string \<Rightarrow> json option"
  encodeURIComponent :: "string \<Rightarrow> string"

definition error_body :: "string \<Rightarrow> (string \<times> json option) list" where
  "error_body msg = [(''error'', Some (JStr msg))]"

text \<open>
  The test that opens the live-status, capture, start-comments and get-logs routes:
  \<open>!username || typeof username !== 'string' || username.trim() === ''\<close>.
\<close>

fun invalid_username :: "qparam \<Rightarrow> bool" where
  "invalid_username Absent = True"
| "invalid_username (Multi xs) = True"
| "invalid_username (Single s) = (s = [] \<or> trim s = [])"

text \<open>\<open>username.replace(/^@/, '').trim()\<close> of those routes.\<close>

definition user_of :: "string \<Rightarrow> string" where
  "user_of username = trim (strip_at username)"

section \<open>The live-status route\<close>

definition live_url :: "'a env_scheme \<Rightarrow> string \<Rightarrow> string" where
  "live_url e user = ''https://www.tiktok.com/@'' @ encodeURIComponent e user @ ''/live''"

definition liveRoom :: "json \<Rightarrow> json option" where
  "liveRoom doc =
     opt_chain (opt_chain (opt_chain (Some doc) ''LiveRoom'') ''liveRoomUserInfo'') ''liveRoom''"

text \<open>
  Lines 27 to 40: \<open>live\<close>, \<open>status\<close> and \<open>roomId\<close> start as \<open>false\<close>, \<open>null\<close>, \<open>null\<close> and
  are assigned only after \<open>JSON.parse\<close> has returned.
\<close>

definition status_fields :: "'a env_scheme \<Rightarrow> string \<Rightarrow> bool \<times> json option \<times> json option" where
  "status_fields e html =
     (case extract_live html of
        None \<Rightarrow> (False, Some JNull, Some JNull)
      | Some g \<Rightarrow>
          (case JSON_parse e g of
             None \<Rightarrow> (False, Some JNull, Some JNull)
           | Some doc \<Rightarrow>
               (let st = opt_chain (liveRoom doc) ''status'' in
                (st = Some (JNum 2), st, opt_chain (liveRoom doc) ''roomId''))))"

text \<open>
  The handler: the response and the URLs it fetched, in order.
\<close>

definition checkLive :: "'a env_scheme \<Rightarrow> qparam \<Rightarrow> response \<times> string list" where
  "checkLive e q =
     (case q of
        Single username \<Rightarrow>
          if invalid_username q
          then (Response 400 (error_body ''Missing or invalid username''), [])
          else
            (let user = user_of username; url = live_url e user in
             case fetch e url of
               Inl msg \<Rightarrow> (Response 500 (error_body msg), [url])
             | Inr r \<Rightarrow>
                 (case body r of
                    Inl msg \<Rightarrow> (Response 500 (error_body msg), [url])
                  | Inr html \<Rightarrow>
                      (case status_fields e html of (live, st, roomId) \<Rightarrow>
                         (Response 200
                            [(''username'', Some (JStr user)), (''live'', Some (JBool live)),
                             (''status'', st), (''roomId'', roomId)],
                          [url]))))
      | _ \<Rightarrow> (Response 400 (error_body ''Missing or invalid username''), []))"

section \<open>The user-info route and its cache\<close>

definition TTL_MS :: int where
  "TTL_MS = 6 * 60 * 60 * 1000"

text \<open>An entry of the module's \<open>Map\<close>: \<open>{ ts, data }\<close>, \<open>data\<close> being the object sent.\<close>

record cache_entry =
  ts :: int
  data :: "(string \<times> json option) list"

type_synonym cache = "string \<rightharpoonup> cache_entry"

text \<open>
  Lines 28 and 29, \<open>hit && (Date.now() - hit.ts) < TTL_MS\<close>: the cached object when the key
  has an entry younger than the window. The \<open>Map\<close> is only read.
\<close>

definition cache_fresh :: "cache \<Rightarrow> string \<Rightarrow> int \<Rightarrow> (string \<times> json option) list option" where
  "cache_fresh c key now =
     (case c key of
        None \<Rightarrow> None
      | Some hit \<Rightarrow> if now - ts hit < TTL_MS then Some (data hit) else None)"

text \<open>Line 98, \<open>cache.set(key, { ts: Date.now(), data: dataOut })\<close>.\<close>

definition cache_set :: "cache \<Rightarrow> string \<Rightarrow> int \<Rightarrow> (string \<times> json option) list \<Rightarrow> cache" where
  "cache_set c key now dataOut = c(key \<mapsto> \<lparr> ts = now, data = dataOut \<rparr>)"

text \<open>\<open>Array.prototype.toString\<close> joins the elements with commas.\<close>

fun join_comma :: "string list \<Rightarrow> string" where
  "join_comma [] = []"
| "join_comma [x] = x"
| "join_comma (x # y # ys) = x @ '','' @ join_comma (y # ys)"

text \<open>Line 22, \<open>(req.query.username || "").toString().trim()\<close>.\<close>

fun usernameRaw :: "qparam \<Rightarrow> string" where
  "usernameRaw Absent = trim []"
| "usernameRaw (Single s) = trim s"
| "usernameRaw (Multi xs) = trim (join_comma xs)"

text \<open>Line 23, and the cache key of line 27.\<close>

definition info_username :: "qparam \<Rightarrow> string" where
  "info_username q = strip_at (usernameRaw q)"

definition cache_key :: "qparam \<Rightarrow> string" where
  "cache_key q = toLowerCase (info_username q)"

definition profile_url :: "'a env_scheme \<Rightarrow> string \<Rightarrow> string" where
  "profile_url e username = ''https://www.tiktok.com/@'' @ encodeURIComponent e username"

text \<open>\<open>safeJsonParse\<close>: \<open>null\<close> when \<open>JSON.parse\<close> throws.\<close>

definition safeJsonParse :: "'a env_scheme \<Rightarrow> string \<Rightarrow> json" where
  "safeJsonParse e str = (case JSON_parse e str of Some v \<Rightarrow> v | None \<Rightarrow> JNull)"

text \<open>Lines 55, 59 and 60: the document the route reads, when the pattern finds one.\<close>

definition info_document :: "'a env_scheme \<Rightarrow> string \<Rightarrow> json option" where
  "info_document e html = map_option (safeJsonParse e) (extract_info html)"

text \<open>
  What the user-info route reads besides \<open>env\<close>: the two readings of \<open>Date.now()\<close>
  (line 29, line 98), and \<open>user_fields\<close>, which stands for lines 63 to 88 and the
  \<open>String\<close> conversions of lines 93 and 94: from the parsed document and the username to
  the \<open>userId\<close> and \<open>country\<close> fields sent. The lookups by a computed key and the
  conversions are left to it; no property below depends on what it returns.
\<close>

record info_env = env +
  now_read :: int
  now_write :: int
  user_fields :: "json \<Rightarrow> string \<Rightarrow> json \<times> json"

definition dataOut :: "info_env \<Rightarrow> string \<Rightarrow> string \<Rightarrow> (string \<times> json option) list" where
  "dataOut e username html =
     (case (case info_document e html of
              None \<Rightarrow> (JNull, JNull)
            | Some doc \<Rightarrow> user_fields e doc username) of
        (userId, country) \<Rightarrow>
          [(''username'', Some (JStr username)), (''userId'', Some userId),
           (''country'', Some country), (''source'', Some (JStr ''SIGI_STATE''))])"

text \<open>
  Decimal text of an integer, as a template literal prints a status or a time stamp.
\<close>

definition digit :: "nat \<Rightarrow> char" where
  "digit d = char_of (d + 48)"

function decimal :: "nat \<Rightarrow> string \<Rightarrow> string" where
  "decimal n acc =
     (let more = digit (n mod 10) # acc in
      if n div 10 = 0 then more else decimal (n div 10) more)"
  by pat_completeness auto
termination
  by (relation "measure fst") auto

definition string_of_nat :: "nat \<Rightarrow> string" where
  "string_of_nat n = decimal n []"


text \<open>
  The handler: the response, the URLs fetched, and the cache it leaves. An error thrown
  anywhere is caught at line 104.
\<close>

definition userInfo :: "info_env \<Rightarrow> cache \<Rightarrow> string \<Rightarrow> qparam \<Rightarrow> response \<times> string list \<times> cache" where
  "userInfo e c method q =
     (if method = ''OPTIONS'' then (End 204, [], c)
      else
        (let username = info_username q in
         if username = [] then (Response 400 (error_body ''Missing username''), [], c)
         else
           (let key = toLowerCase username in
            case cache_fresh c key (now_read e) of
              Some d \<Rightarrow> (Response 200 (d @ [(''cached'', Some (JBool True))]), [], c)
            | None \<Rightarrow>
                (let url = profile_url e username in
                 case fetch e url of
                   Inl msg \<Rightarrow>
                     (Response 500 [(''error'', Some (JStr ''Server error'')),
                                    (''detail'', Some (JStr msg))], [url], c)
                 | Inr r \<Rightarrow>
                     if \<not> ok r
                     then (Response (status r)
                             [(''username'', Some (JStr username)),
                              (''error'', Some (JStr (''TikTok HTTP '' @ string_of_nat (status r)))),
                              (''userId'', Some JNull), (''country'', Some JNull),
                              (''source'', Some (JStr ''tiktok''))], [url], c)
                     else
                       (case body r of
                          Inl msg \<Rightarrow>
                            (Response 500 [(''error'', Some (JStr ''Server error'')),
                                           (''detail'', Some (JStr msg))], [url], c)
                        | Inr html \<Rightarrow>
                            (let d = dataOut e username html in
                             (Response 200 d, [url], cache_set c key (now_write e) d)))))))"

section \<open>The comment listener and its log\<close>

text \<open>
  \<open>global.commentWatchers\<close> and \<open>global.commentLogs\<close> are plain objects used as
  dictionaries, read with \<open>obj[user]\<close>. Such a read finds the object's own property, or
  else a member every object inherits from \<open>Object.prototype\<close>, or else \<open>undefined\<close>.
\<close>

definition Object_prototype_names :: "string list" where
  "Object_prototype_names =
     [''constructor'', ''__defineGetter__'', ''__defineSetter__'', ''hasOwnProperty'',
      ''__lookupGetter__'', ''__lookupSetter__'', ''isPrototypeOf'', ''propertyIsEnumerable'',
      ''toString'', ''valueOf'', ''__proto__'', ''toLocaleString'']"

datatype 'a lookup = Missing | Inherited | Own 'a

definition obj_get :: "(string \<rightharpoonup> 'a) \<Rightarrow> string \<Rightarrow> 'a lookup" where
  "obj_get obj k =
     (case obj k of
        Some v \<Rightarrow> Own v
      | None \<Rightarrow> if k \<in> set Object_prototype_names then Inherited else Missing)"

text \<open>The argument of a \<open>chat\<close> event, and \<open>new Date().toISOString()\<close> when it arrives.\<close>

record chat_event =
  iso_time :: string
  uniqueId :: "json option"
  nickname :: "json option"
  comment :: "json option"

record log_entry =
  log_timestamp :: string
  log_user :: "json option"
  log_comment :: "json option"

datatype connection = WebcastPushConnection string

record globals =
  commentWatchers :: "(string \<rightharpoonup> connection) option"
  commentLogs :: "(string \<rightharpoonup> log_entry list) option"

definition LOG_CAP :: nat where
  "LOG_CAP = 10000"

text \<open>Lines 51 to 55: \<open>user: data.uniqueId || data.nickname\<close>.\<close>

definition make_entry :: "chat_event \<Rightarrow> log_entry" where
  "make_entry ev =
     \<lparr> log_timestamp = iso_time ev,
       log_user = (if truthy (uniqueId ev) then uniqueId ev else nickname ev),
       log_comment = comment ev \<rparr>"

text \<open>Lines 51 to 59 on the array: \<open>push\<close>, then one \<open>shift\<close> when the length is over 10000.\<close>

definition push_capped :: "log_entry list \<Rightarrow> log_entry \<Rightarrow> log_entry list" where
  "push_capped entries x =
     (let pushed = entries @ [x] in if length pushed > LOG_CAP then tl pushed else pushed)"

text \<open>
  The listener of lines 47 to 60 for \<open>user\<close>. When \<open>global.commentLogs[user]\<close> is an
  inherited member it is truthy and has no \<open>push\<close>: the call throws a \<open>TypeError\<close>, as
  does the read when \<open>global.commentLogs\<close> itself is \<open>undefined\<close>.
\<close>

definition chat_listener :: "string \<Rightarrow> chat_event \<Rightarrow> globals \<Rightarrow> string + globals" where
  "chat_listener user ev g =
     (case commentLogs g of
        None \<Rightarrow> Inl (''Cannot read properties of undefined (reading '' @ [CHR 0x27] @ user @ [CHR 0x27] @ '')'')
      | Some logs \<Rightarrow>
          (case obj_get logs user of
             Inherited \<Rightarrow> Inl ''global.commentLogs[user].push is not a function''
           | Missing \<Rightarrow> Inr (g\<lparr>commentLogs := Some (logs(user \<mapsto> push_capped [] (make_entry ev)))\<rparr>)
           | Own entries \<Rightarrow>
               Inr (g\<lparr>commentLogs := Some (logs(user \<mapsto> push_capped entries (make_entry ev)))\<rparr>)))"

text \<open>The listener run on a sequence of events, one at a time; it stops at an error.\<close>

fun chat_events :: "string \<Rightarrow> chat_event list \<Rightarrow> globals \<Rightarrow> string + globals" where
  "chat_events user [] g = Inr g"
| "chat_events user (ev # evs) g =
     (case chat_listener user ev g of Inl err \<Rightarrow> Inl err | Inr g' \<Rightarrow> chat_events user evs g')"

definition the_log :: "globals \<Rightarrow> string \<Rightarrow> log_entry list option" where
  "the_log g user = (case commentLogs g of None \<Rightarrow> None | Some logs \<Rightarrow> logs user)"

text \<open>What a reader of the log finds for a user: the entries, none when there is no log.\<close>

definition retained :: "globals \<Rightarrow> string \<Rightarrow> log_entry list" where
  "retained g user = (case the_log g user of None \<Rightarrow> [] | Some es \<Rightarrow> es)"

text \<open>
  The start-comments handler. \<open>connect\<close> is \<open>connection.connect()\<close> for a user: \<open>Some\<close>
  message when it rejects. The listener is registered on the path that stores the watcher.
\<close>

definition startComments :: "(string \<Rightarrow> string option) \<Rightarrow> globals \<Rightarrow> qparam \<Rightarrow> response \<times> globals" where
  "startComments connect g q =
     (case q of
        Single username \<Rightarrow>
          if invalid_username q
          then (Response 400 (error_body ''Missing or invalid username''), g)
          else
            (let user = user_of username;
                 watchers = (case commentWatchers g of None \<Rightarrow> Map.empty | Some w \<Rightarrow> w);
                 logs = (case commentLogs g of None \<Rightarrow> Map.empty | Some l \<Rightarrow> l)
             in
             if obj_get watchers user \<noteq> Missing
             then (Response 200 [(''message'', Some (JStr ''Listener already running''))],
                   \<lparr> commentWatchers = Some watchers, commentLogs = Some logs \<rparr>)
             else
               (case connect user of
                  Some msg \<Rightarrow>
                    (Response 500 (error_body (''Failed to connect: '' @ msg)),
                     \<lparr> commentWatchers = Some watchers, commentLogs = Some (logs(user \<mapsto> [])) \<rparr>)
                | None \<Rightarrow>
                    (Response 200 [(''message'', Some (JStr ''Comment listener started''))],
                     \<lparr> commentWatchers = Some (watchers(user \<mapsto> WebcastPushConnection user)),
                       commentLogs = Some (logs(user \<mapsto> [])) \<rparr>)))
      | _ \<Rightarrow> (Response 400 (error_body ''Missing or invalid username''), g))"

section \<open>The capture route\<close>








definition TIERS :: "string list" where
  "TIERS = [''uhd'', ''hd'', ''sd'', ''ld'']"

text \<open>
  The test of line 75 on \<open>variant = streams[quality]\<close>:
  \<open>variant && variant.main && variant.main.flv\<close>. Each read follows a truthy receiver, so
  none can throw.
\<close>

definition flv_of :: "json option \<Rightarrow> json option" where
  "flv_of variant = opt_chain (opt_chain variant ''main'') ''flv''"

definition usable :: "json option \<Rightarrow> bool" where
  "usable variant = (truthy variant \<and> truthy (opt_chain variant ''main'') \<and> truthy (flv_of variant))"

text \<open>
  The loop of lines 73 to 79 over the tiers left to try: the tier at which it breaks with
  its \<open>flvUrl\<close>, \<open>None\<close> when it runs out, or the \<open>TypeError\<close> of \<open>streams[quality]\<close>.
\<close>

fun select_flv :: "json option \<Rightarrow> string list \<Rightarrow> string + (string \<times> json) option" where
  "select_flv streams [] = Inr None"
| "select_flv streams (quality # rest) =
     (case member streams quality of
        Inl err \<Rightarrow> Inl err
      | Inr variant \<Rightarrow>
          (case flv_of variant of
             Some url \<Rightarrow> if usable variant then Inr (Some (quality, url)) else select_flv streams rest
           | None \<Rightarrow> select_flv streams rest))"














section \<open>Concrete scenarios\<close>

text \<open>
  Pages, documents and worlds at which the properties below are evaluated. \<open>doc_A\<close> is
  the text \<open>{"LiveRoom":{"liveRoomUserInfo":{"liveRoom":{"status":2,"roomId":"123"}}}}\<close>
  and \<open>value_A\<close> the value \<open>JSON.parse\<close> reads from it.
\<close>

definition doc_A :: string where
  "doc_A = ''{'' @ [dq] @ ''LiveRoom'' @ [dq] @ '':{'' @ [dq] @ ''liveRoomUserInfo'' @ [dq] @ '':{''
     @ [dq] @ ''liveRoom'' @ [dq] @ '':{'' @ [dq] @ ''status'' @ [dq] @ '':2,'' @ [dq] @ ''roomId'' @ [dq]
     @ '':'' @ [dq] @ ''123'' @ [dq] @ ''}}}}''"

definition value_A :: json where
  "value_A = JObj [(''LiveRoom'', JObj [(''liveRoomUserInfo'',
       JObj [(''liveRoom'', JObj [(''status'', JNum 2), (''roomId'', JStr ''123'')])])])]"

definition page_A :: string where
  "page_A = ''<html>'' @ OPEN_TAG @ ''>'' @ doc_A @ CLOSE_TAG @ ''</html>''"

definition page_B :: string where
  "page_B = ''<html><body>offline</body></html>''"

text \<open>
  \<open>doc_M\<close> is \<open>doc_A\<close> with a line break after its first brace, which \<open>JSON.parse\<close>
  reads to the same value; \<open>page_M\<close> embeds it in a script element of type
  \<open>application/json\<close>.
\<close>

definition doc_M :: string where
  "doc_M = ''{'' @ [CHR 0x0A] @ tl doc_A"

definition page_M :: string where
  "page_M = ''<html>'' @ JSON_TAG @ doc_M @ CLOSE_TAG @ ''</html>''"

definition demo_env :: "string \<Rightarrow> env" where
  "demo_env html =
     \<lparr> fetch = (\<lambda>url. Inr \<lparr> ok = True, status = 200, body = Inr html \<rparr>),
       JSON_parse = (\<lambda>s. if s = doc_A \<or> s = doc_M then Some value_A else None),
       encodeURIComponent = (\<lambda>s. s) \<rparr>"

definition manifest_C :: "(string \<times> json) list" where
  "manifest_C = [(''uhd'', JObj [(''main'', JObj [(''flv'', JStr ''u'')])]),
                 (''hd'', JObj [(''main'', JObj [(''flv'', JStr ''h'')])])]"

text \<open>A world of the user-info route, the object it caches for \<open>Foo\<close>, the state a
  successful start leaves for \<open>foo\<close>, and the \<open>i\<close>-th of a run of chat events.\<close>

definition info_demo :: "int \<Rightarrow> int \<Rightarrow> string \<Rightarrow> info_env" where
  "info_demo t1 t2 html =
     \<lparr> fetch = (\<lambda>url. Inr \<lparr> ok = True, status = 200, body = Inr html \<rparr>),
       JSON_parse = (\<lambda>s. if s = doc_A then Some value_A else None),
       encodeURIComponent = (\<lambda>s. s),
       now_read = t1, now_write = t2,
       user_fields = (\<lambda>doc username. (JNull, JNull)) \<rparr>"

definition demo_data :: "(string \<times> json option) list" where
  "demo_data = [(''username'', Some (JStr ''Foo'')), (''userId'', Some JNull),
                (''country'', Some JNull), (''source'', Some (JStr ''SIGI_STATE''))]"

definition started :: globals where
  "started = \<lparr> commentWatchers = Some [''foo'' \<mapsto> WebcastPushConnection ''foo''],
               commentLogs = Some [''foo'' \<mapsto> []] \<rparr>"

definition numbered :: "nat \<Rightarrow> chat_event" where
  "numbered i = \<lparr> iso_time = string_of_nat i, uniqueId = Some (JStr ''alice''),
                  nickname = None, comment = Some (JStr ''hi'') \<rparr>"

text \<open>
  The globals before any request. A world of the capture route: the live page embeds a
  document whose \<open>stream_data\<close> is the text of a manifest with one tier of URL \<open>u\<close>;
  the download succeeds and the audio extraction exits with the given code; a process
  that succeeds creates its output file.
\<close>

definition fresh_globals :: globals where
  "fresh_globals = \<lparr> commentWatchers = None, commentLogs = None \<rparr>"









section \<open>Properties\<close>

declare decimal.simps [simp del]

subsection \<open>The patterns\<close>

lemma occurrences_iff: "i \<in> set (occurrences pat s) \<longleftrightarrow> i \<le> length s \<and> prefix pat (drop i s)"
  unfolding occurrences_def set_filter set_upt by auto

lemma search_none:
  "(\<And>i. i \<le> length s \<Longrightarrow> m (drop i s) = None) \<Longrightarrow> search m s = None"
proof (induction s)
  case Nil
  from Nil [of 0] show ?case by simp
next
  case (Cons c cs)
  from Cons.prems [of 0] have "m (c # cs) = None" by simp
  moreover have "search m cs = None"
  proof (rule Cons.IH)
    fix i assume "i \<le> length cs"
    with Cons.prems [of "Suc i"] show "m (drop i cs) = None" by simp
  qed
  ultimately show ?case by simp
qed

lemma search_skip:
  "(\<And>i. i < length pre \<Longrightarrow> m (drop i (pre @ rest)) = None) \<Longrightarrow> search m (pre @ rest) = search m rest"
proof (induction pre)
  case Nil
  show ?case by simp
next
  case (Cons c cs)
  from Cons.prems [of 0] have "m (c # cs @ rest) = None" by simp
  moreover have "search m (cs @ rest) = search m rest"
  proof (rule Cons.IH)
    fix i assume "i < length cs"
    with Cons.prems [of "Suc i"] show "m (drop i (cs @ rest)) = None" by simp
  qed
  ultimately show ?case by simp
qed

lemma search_single:
  assumes only: "occurrences P (pre @ rest) = [length pre]"
    and needs: "\<And>s. m s \<noteq> None \<Longrightarrow> prefix P s"
  shows "search m (pre @ rest) = m rest"
proof -
  have at: "i = length pre" if "i \<le> length (pre @ rest)" "m (drop i (pre @ rest)) \<noteq> None" for i
  proof -
    from that(2) have "prefix P (drop i (pre @ rest))" by (rule needs)
    with that(1) have "i \<in> set (occurrences P (pre @ rest))" by (simp add: occurrences_iff)
    with only show ?thesis by simp
  qed
  have "search m (pre @ rest) = search m rest"
  proof (rule search_skip)
    fix i assume "i < length pre"
    with at [of i] show "m (drop i (pre @ rest)) = None" by fastforce
  qed
  also have "\<dots> = m rest"
  proof (cases rest)
    case Nil
    then show ?thesis by simp
  next
    case (Cons c cs)
    have "search m cs = None"
    proof (rule search_none)
      fix i assume i: "i \<le> length cs"
      have "drop i cs = drop (length pre + Suc i) (pre @ rest)" using Cons by simp
      moreover have "length pre + Suc i \<le> length (pre @ rest)" using i Cons by simp
      ultimately show "m (drop i cs) = None" using at [of "length pre + Suc i"] by fastforce
    qed
    with Cons show ?thesis by (simp split: option.splits)
  qed
  finally show ?thesis .
qed

lemma match_live_needs_open: "match_live_at s \<noteq> None \<Longrightarrow> prefix OPEN_TAG s"
  by (simp add: match_live_at_def split: if_splits)

lemma match_info_needs_open: "match_info_at s \<noteq> None \<Longrightarrow> prefix OPEN_TAG s"
  by (auto simp: match_info_at_def JSON_TAG_def split: if_splits elim: prefixE intro: prefixI)


lemma CLOSE_TAG_inner: "0 < k \<Longrightarrow> k < length CLOSE_TAG \<Longrightarrow> CLOSE_TAG ! k \<noteq> CHR ''<''"
  by (auto simp: CLOSE_TAG_def less_Suc_eq eval_nat_numeral)

lemma prefix_nth: "prefix xs ys \<Longrightarrow> i < length xs \<Longrightarrow> ys ! i = xs ! i"
  by (auto simp: prefix_def nth_append)

lemma no_straddle:
  assumes "occurrences CLOSE_TAG (c # cs) = []"
  shows "\<not> prefix CLOSE_TAG ((c # cs) @ CLOSE_TAG @ post)"
proof
  let ?b = "c # cs"
  assume p: "prefix CLOSE_TAG (?b @ CLOSE_TAG @ post)"
  from assms have no: "\<not> prefix CLOSE_TAG ?b"
    using occurrences_iff [of 0 CLOSE_TAG ?b] by simp
  show False
  proof (cases "length ?b < length CLOSE_TAG")
    case True
    have "(?b @ CLOSE_TAG @ post) ! length ?b = CHR ''<''"
    proof -
      have "(?b @ CLOSE_TAG @ post) ! length ?b = (CLOSE_TAG @ post) ! 0"
        using nth_append_length_plus [of ?b "CLOSE_TAG @ post" 0] by simp
      then show ?thesis by (simp add: CLOSE_TAG_def)
    qed
    moreover from p True have "(?b @ CLOSE_TAG @ post) ! length ?b = CLOSE_TAG ! length ?b"
      by (rule prefix_nth)
    ultimately have "CLOSE_TAG ! length ?b = CHR ''<''" by simp
    moreover have "0 < length ?b" by simp
    ultimately show False using True CLOSE_TAG_inner by blast
  next
    case False
    then have "length CLOSE_TAG \<le> length ?b" by simp
    with p have "prefix CLOSE_TAG ?b"
      by (metis prefix_length_prefix prefixI)
    with no show False ..
  qed
qed

lemma occurrences_tail: "occurrences pat (c # cs) = [] \<Longrightarrow> occurrences pat cs = []"
proof -
  assume a: "occurrences pat (c # cs) = []"
  have "i \<notin> set (occurrences pat cs)" for i
  proof
    assume "i \<in> set (occurrences pat cs)"
    then have "Suc i \<in> set (occurrences pat (c # cs))" by (simp add: occurrences_iff)
    with a show False by simp
  qed
  then show ?thesis by (cases "occurrences pat cs") auto
qed

lemma lazy_dot_multiline:
  "occurrences CLOSE_TAG content = [] \<Longrightarrow> \<exists>c \<in> set content. isLineTerminator c \<Longrightarrow>
   lazy_until_close dot (content @ CLOSE_TAG @ post) = None"
proof (induction content)
  case Nil
  then show ?case by simp
next
  case (Cons c cs)
  from Cons.prems(1) have np: "\<not> prefix CLOSE_TAG ((c # cs) @ CLOSE_TAG @ post)" by (rule no_straddle)
  from Cons.prems(1) have oc: "occurrences CLOSE_TAG cs = []" by (rule occurrences_tail)
  show ?case
  proof (cases "isLineTerminator c")
    case True
    with np show ?thesis by (simp add: dot_def)
  next
    case False
    with Cons.prems(2) have "\<exists>c \<in> set cs. isLineTerminator c" by simp
    with Cons.IH oc have "lazy_until_close dot (cs @ CLOSE_TAG @ post) = None" by simp
    with np show ?thesis by simp
  qed
qed


lemma match_live_at_JSON_TAG: "match_live_at (JSON_TAG @ x) = lazy_until_close dot x"
  by (simp add: match_live_at_def JSON_TAG_def OPEN_TAG_def dq_def)

lemma match_info_at_JSON_TAG: "match_info_at (JSON_TAG @ x) = lazy_until_close any_char x"
  by (simp add: match_info_at_def)

lemma skip_attrs_Some:
  "skip_attrs s = Some r \<Longrightarrow> \<exists>attrs. s = attrs @ CHR ''>'' # r \<and> CHR ''>'' \<notin> set attrs"
proof (induction s)
  case Nil
  then show ?case by simp
next
  case (Cons c cs)
  show ?case
  proof (cases "c = CHR ''>''")
    case True
    with Cons.prems have "c # cs = [] @ CHR ''>'' # r" by simp
    then show ?thesis by (metis empty_iff list.set(1))
  next
    case False
    with Cons obtain attrs where "cs = attrs @ CHR ''>'' # r" "CHR ''>'' \<notin> set attrs" by auto
    with False have "c # cs = (c # attrs) @ CHR ''>'' # r \<and> CHR ''>'' \<notin> set (c # attrs)" by simp
    then show ?thesis by blast
  qed
qed

lemma skip_attrs_append:
  "CHR ''>'' \<notin> set attrs \<Longrightarrow> skip_attrs (attrs @ CHR ''>'' # r) = Some r"
  by (induction attrs) auto

lemma lazy_until_close_Some:
  "lazy_until_close C s = Some g \<Longrightarrow> \<exists>post. s = g @ CLOSE_TAG @ post \<and> (\<forall>c \<in> set g. C c)"
proof (induction s arbitrary: g)
  case Nil
  then show ?case by simp
next
  case (Cons c cs)
  show ?case
  proof (cases "prefix CLOSE_TAG (c # cs)")
    case True
    with Cons.prems have "g = []" by simp
    with True show ?thesis by (auto simp: prefix_def)
  next
    case False
    with Cons.prems obtain g' where g': "C c" "lazy_until_close C cs = Some g'" "g = c # g'"
      by (auto split: if_splits)
    from Cons.IH [OF g'(2)] obtain post where "cs = g' @ CLOSE_TAG @ post" "\<forall>c \<in> set g'. C c" by blast
    with g' show ?thesis by auto
  qed
qed

lemma search_Some:
  "search m s = Some g \<Longrightarrow> \<exists>pre rest. s = pre @ rest \<and> m rest = Some g"
proof (induction s)
  case Nil
  then show ?case by simp
next
  case (Cons c cs)
  show ?case
  proof (cases "m (c # cs)")
    case (Some g')
    with Cons.prems have "m (c # cs) = Some g" by simp
    then have "c # cs = [] @ (c # cs) \<and> m (c # cs) = Some g" by simp
    then show ?thesis by blast
  next
    case None
    with Cons obtain pre rest where "cs = pre @ rest" "m rest = Some g" by auto
    then have "c # cs = (c # pre) @ rest \<and> m rest = Some g" by simp
    then show ?thesis by blast
  qed
qed

lemma extract_live_sound:
  assumes "extract_live html = Some g"
  shows "g \<noteq> [] \<and> (\<exists>pre attrs post. html = pre @ OPEN_TAG @ attrs @ ''>'' @ g @ CLOSE_TAG @ post
           \<and> CHR ''>'' \<notin> set attrs \<and> (\<forall>c \<in> set g. \<not> isLineTerminator c))"
proof -
  from assms have ne: "g \<noteq> []" and s: "search match_live_at html = Some g"
    by (auto simp: extract_live_def split: option.splits if_splits)
  from search_Some [OF s] obtain pre rest where pr: "html = pre @ rest" "match_live_at rest = Some g"
    by blast
  from pr(2) obtain r where r: "prefix OPEN_TAG rest" "skip_attrs (drop (length OPEN_TAG) rest) = Some r"
      "lazy_until_close dot r = Some g"
    by (auto simp: match_live_at_def split: if_splits option.splits)
  from r(1) have rest: "rest = OPEN_TAG @ drop (length OPEN_TAG) rest" by (auto simp: prefix_def)
  from skip_attrs_Some [OF r(2)] obtain attrs where
    a: "drop (length OPEN_TAG) rest = attrs @ CHR ''>'' # r" "CHR ''>'' \<notin> set attrs" by blast
  from lazy_until_close_Some [OF r(3)] obtain post where
    p: "r = g @ CLOSE_TAG @ post" "\<forall>c \<in> set g. dot c" by blast
  from pr(1) rest a(1) p(1) have "html = pre @ OPEN_TAG @ attrs @ ''>'' @ g @ CLOSE_TAG @ post"
    by (metis append_Cons append_Nil)
  with ne a(2) p(2) show ?thesis by (auto simp: dot_def)
qed

lemma lazy_until_close_body:
  "occurrences CLOSE_TAG content = [] \<Longrightarrow> \<forall>c \<in> set content. C c \<Longrightarrow>
   lazy_until_close C (content @ CLOSE_TAG @ post) = Some content"
proof (induction content)
  case Nil
  show ?case by (simp add: CLOSE_TAG_def)
next
  case (Cons c cs)
  from Cons.prems(1) have "\<not> prefix CLOSE_TAG ((c # cs) @ CLOSE_TAG @ post)" by (rule no_straddle)
  moreover from Cons.prems(1) have "occurrences CLOSE_TAG cs = []" by (rule occurrences_tail)
  ultimately show ?case using Cons.IH Cons.prems(2) by simp
qed

lemma match_live_at_tag:
  "CHR ''>'' \<notin> set attrs \<Longrightarrow>
   match_live_at (OPEN_TAG @ attrs @ ''>'' @ x) = lazy_until_close dot x"
  by (simp add: match_live_at_def skip_attrs_append)

lemma extract_live_complete:
  assumes "html = pre @ OPEN_TAG @ attrs @ ''>'' @ content @ CLOSE_TAG @ post"
    and "occurrences OPEN_TAG html = [length pre]"
    and "CHR ''>'' \<notin> set attrs"
    and "occurrences CLOSE_TAG content = []"
    and "content \<noteq> []"
    and "\<forall>c \<in> set content. \<not> isLineTerminator c"
  shows "extract_live html = Some content"
proof -
  let ?rest = "OPEN_TAG @ attrs @ ''>'' @ content @ CLOSE_TAG @ post"
  from assms(2) have only: "occurrences OPEN_TAG (pre @ ?rest) = [length pre]"
    by (simp add: assms(1))
  have "search match_live_at (pre @ ?rest) = match_live_at ?rest"
    using only match_live_needs_open by (rule search_single)
  also have "\<dots> = lazy_until_close dot (content @ CLOSE_TAG @ post)"
    using assms(3) by (rule match_live_at_tag)
  also have "\<dots> = Some content"
    using assms(4,6) by (intro lazy_until_close_body) (simp_all add: dot_def)
  finally show ?thesis using assms(5) by (simp add: extract_live_def assms(1))
qed


subsection \<open>The live-status query\<close>

text \<open>
  Claim C1. For every page markup, the status query reports \<open>live = true\<close> exactly when
  the markup holds an embedded state document that \<open>JSON.parse\<close> accepts and whose
  \<open>LiveRoom.liveRoomUserInfo.liveRoom.status\<close> is the number 2. The document is the
  group the route's pattern finds: it is not empty, has no line terminator, and stands
  in the markup between a \<open>SIGI_STATE\<close> script tag and a closing tag; and in a markup
  with one such script element whose content is not empty and holds no line terminator
  and no closing tag, that content is the document. When no document is found, \<open>live\<close>,
  \<open>status\<close> and \<open>roomId\<close> are \<open>false\<close>, \<open>null\<close>, \<open>null\<close>. Whatever the page, a fetched page
  yields the 200 response built from these fields, and every request ends in a
  response: no error leaves the handler.
\<close>

theorem C1_status_query:
  "fst (status_fields e html) =
     (\<exists>g doc. extract_live html = Some g \<and> JSON_parse e g = Some doc \<and>
        opt_chain (liveRoom doc) ''status'' = Some (JNum 2))
   \<and> (extract_live html = None \<longrightarrow> status_fields e html = (False, Some JNull, Some JNull))
   \<and> (extract_live html = Some g \<longrightarrow>
         g \<noteq> [] \<and> (\<exists>pre attrs post. html = pre @ OPEN_TAG @ attrs @ ''>'' @ g @ CLOSE_TAG @ post
           \<and> CHR ''>'' \<notin> set attrs \<and> (\<forall>c \<in> set g. \<not> isLineTerminator c)))
   \<and> (html = before @ OPEN_TAG @ attributes @ ''>'' @ content @ CLOSE_TAG @ rest
        \<and> occurrences OPEN_TAG html = [length before] \<and> CHR ''>'' \<notin> set attributes
        \<and> occurrences CLOSE_TAG content = [] \<and> content \<noteq> []
        \<and> (\<forall>c \<in> set content. \<not> isLineTerminator c) \<longrightarrow>
         extract_live html = Some content)
   \<and> (\<not> invalid_username (Single u) \<longrightarrow> fetch e (live_url e (user_of u)) = Inr r \<longrightarrow> body r = Inr html \<longrightarrow>
        checkLive e (Single u) =
          (Response 200 [(''username'', Some (JStr (user_of u))),
                         (''live'', Some (JBool (fst (status_fields e html)))),
                         (''status'', fst (snd (status_fields e html))),
                         (''roomId'', snd (snd (status_fields e html)))],
           [live_url e (user_of u)]))
   \<and> (\<exists>code payload. fst (checkLive e q) = Response code payload)"
proof (intro conjI impI)
  show "fst (status_fields e html) =
     (\<exists>g doc. extract_live html = Some g \<and> JSON_parse e g = Some doc \<and>
        opt_chain (liveRoom doc) ''status'' = Some (JNum 2))"
    by (auto simp: status_fields_def Let_def split: option.splits)
next
  assume "extract_live html = None"
  then show "status_fields e html = (False, Some JNull, Some JNull)"
    by (simp add: status_fields_def)
next
  assume g: "extract_live html = Some g"
  from extract_live_sound [OF g] show "g \<noteq> []" by blast
  from extract_live_sound [OF g]
  show "\<exists>pre attrs post. html = pre @ OPEN_TAG @ attrs @ ''>'' @ g @ CLOSE_TAG @ post
           \<and> CHR ''>'' \<notin> set attrs \<and> (\<forall>c \<in> set g. \<not> isLineTerminator c)"
    by blast
next
  assume "html = before @ OPEN_TAG @ attributes @ ''>'' @ content @ CLOSE_TAG @ rest
        \<and> occurrences OPEN_TAG html = [length before] \<and> CHR ''>'' \<notin> set attributes
        \<and> occurrences CLOSE_TAG content = [] \<and> content \<noteq> []
        \<and> (\<forall>c \<in> set content. \<not> isLineTerminator c)"
  then show "extract_live html = Some content"
    by (intro extract_live_complete [of html before attributes content rest]) blast+
next
  assume "\<not> invalid_username (Single u)" "fetch e (live_url e (user_of u)) = Inr r" "body r = Inr html"
  then show "checkLive e (Single u) =
          (Response 200 [(''username'', Some (JStr (user_of u))),
                         (''live'', Some (JBool (fst (status_fields e html)))),
                         (''status'', fst (snd (status_fields e html))),
                         (''roomId'', snd (snd (status_fields e html)))],
           [live_url e (user_of u)])"
    by (simp add: checkLive_def Let_def split: prod.splits)
next
  show "\<exists>code payload. fst (checkLive e q) = Response code payload"
    by (cases q) (auto simp: checkLive_def Let_def split: sum.splits prod.splits)
qed

theorem C1_witness:
  "extract_live page_A = Some doc_A
   \<and> fst (status_fields (demo_env page_A) page_A)
   \<and> extract_live page_B = None
   \<and> status_fields (demo_env page_B) page_B = (False, Some JNull, Some JNull)
   \<and> \<not> invalid_username (Single ''@foo'')
   \<and> checkLive (demo_env page_B) (Single ''@foo'') =
       (Response 200 [(''username'', Some (JStr ''foo'')), (''live'', Some (JBool False)),
                      (''status'', Some JNull), (''roomId'', Some JNull)],
        [''https://www.tiktok.com/@foo/live''])"
proof -
  let ?rB = "\<lparr> ok = True, status = 200, body = Inr page_B \<rparr>"
  note A = C1_status_query [of "demo_env page_A" page_A doc_A "''<html>''" "[]" doc_A "''</html>''"]
  note B = C1_status_query [of "demo_env page_B" page_B _ _ _ _ _ "''@foo''" ?rB]
  have shape: "page_A = ''<html>'' @ OPEN_TAG @ [] @ ''>'' @ doc_A @ CLOSE_TAG @ ''</html>''
        \<and> occurrences OPEN_TAG page_A = [length ''<html>''] \<and> CHR ''>'' \<notin> set []
        \<and> occurrences CLOSE_TAG doc_A = [] \<and> doc_A \<noteq> []
        \<and> (\<forall>c \<in> set doc_A. \<not> isLineTerminator c)"
  proof (intro conjI)
    show "page_A = ''<html>'' @ OPEN_TAG @ [] @ ''>'' @ doc_A @ CLOSE_TAG @ ''</html>''"
      by (simp add: page_A_def)
    show "occurrences OPEN_TAG page_A = [length ''<html>'']" by code_simp
    show "occurrences CLOSE_TAG doc_A = []" by code_simp
    show "doc_A \<noteq> []" by code_simp
    show "\<forall>c \<in> set doc_A. \<not> isLineTerminator c" by code_simp
  qed simp
  note a = A [THEN conjunct2, THEN conjunct2, THEN conjunct2, THEN conjunct1, rule_format, OF shape]
  have b: "JSON_parse (demo_env page_A) doc_A = Some value_A" by (simp add: demo_env_def)
  have c: "opt_chain (liveRoom value_A) ''status'' = Some (JNum 2)" by code_simp
  have d: "extract_live page_B = None" by code_simp
  have v: "\<not> invalid_username (Single ''@foo'')" by code_simp
  have u: "user_of ''@foo'' = ''foo''" by code_simp
  have f: "fetch (demo_env page_B) (live_url (demo_env page_B) (user_of ''@foo'')) = Inr ?rB"
    by (simp add: demo_env_def)
  have l: "live_url (demo_env page_B) ''foo'' = ''https://www.tiktok.com/@foo/live''"
    by (simp add: live_url_def demo_env_def)
  from A [THEN conjunct1] a b c have 1: "fst (status_fields (demo_env page_A) page_A)" by blast
  note 2 = B [THEN conjunct2, THEN conjunct1, rule_format, OF d]
  have bd: "body ?rB = Inr page_B" by simp
  note 3 = B [THEN conjunct2, THEN conjunct2, THEN conjunct2, THEN conjunct2, THEN conjunct1,
              rule_format, OF v f bd]
  from 3 have 4: "checkLive (demo_env page_B) (Single ''@foo'') =
       (Response 200 [(''username'', Some (JStr ''foo'')), (''live'', Some (JBool False)),
                      (''status'', Some JNull), (''roomId'', Some JNull)],
        [''https://www.tiktok.com/@foo/live''])"
    by (simp add: 2 u l)
  from a 1 d 2 v 4 show ?thesis by (intro conjI)
qed

subsection \<open>Quality selection\<close>

lemma member_obj: "member (Some (JObj kvs)) k = Inr (map_of kvs k)"
  by simp

lemma select_flv_find:
  "select_flv (Some (JObj kvs)) qs =
     (case find (\<lambda>t. usable (map_of kvs t)) qs of
        None \<Rightarrow> Inr None
      | Some q \<Rightarrow> (case flv_of (map_of kvs q) of Some url \<Rightarrow> Inr (Some (q, url)) | None \<Rightarrow> Inr None))"
proof (induction qs)
  case Nil
  show ?case by simp
next
  case (Cons q qs)
  show ?case
  proof (cases "usable (map_of kvs q)")
    case True
    then have "truthy (flv_of (map_of kvs q))" by (simp add: usable_def)
    then obtain url where "flv_of (map_of kvs q) = Some url" by (cases "flv_of (map_of kvs q)") auto
    with True show ?thesis by simp
  next
    case False
    with Cons show ?thesis by (simp split: option.splits)
  qed
qed

lemma usable_flv: "usable v \<Longrightarrow> \<exists>url. flv_of v = Some url"
  by (cases "flv_of v") (auto simp: usable_def)

lemma flv_string_usable:
  assumes "flv_of v = Some (JStr s)"
  shows "usable v = (s \<noteq> [])"
proof -
  from assms obtain m where m: "opt_chain v ''main'' = Some m" "opt_chain (Some m) ''flv'' = Some (JStr s)"
    by (cases "opt_chain v ''main''") (auto simp: flv_of_def)
  from m(2) have tm: "truthy (Some m)" by (cases m) auto
  from m(1) have tv: "truthy v"
  proof (cases v)
    case None with m(1) show ?thesis by simp
  next
    case (Some j) with m(1) show ?thesis by (cases j) auto
  qed
  show ?thesis using tm tv m assms by (simp add: usable_def)
qed


text \<open>
  Claim C2. For every manifest object, the loop over \<open>uhd\<close>, \<open>hd\<close>, \<open>sd\<close>, \<open>ld\<close> returns
  the \<open>flv\<close> value of the first tier in that order whose variant, \<open>main\<close> and \<open>flv\<close> are all
  truthy, and nothing when no tier has them; a \<open>flv\<close> that is a string is truthy exactly
  when it is not empty; two manifests with the same entries in different orders select
  the same stream.
\<close>

theorem C2_quality_selection:
  "(select_flv (Some (JObj kvs)) TIERS = Inr (Some (q, url))) =
     (find (\<lambda>t. usable (map_of kvs t)) TIERS = Some q \<and> flv_of (map_of kvs q) = Some url)
   \<and> (select_flv (Some (JObj kvs)) TIERS = Inr None) = (find (\<lambda>t. usable (map_of kvs t)) TIERS = None)
   \<and> (flv_of v = Some (JStr s) \<longrightarrow> usable v = (s \<noteq> []))
   \<and> (distinct (map fst kvs) \<and> distinct (map fst kvs') \<and> set kvs = set kvs' \<longrightarrow>
        select_flv (Some (JObj kvs)) TIERS = select_flv (Some (JObj kvs')) TIERS)
   \<and> TIERS = [''uhd'', ''hd'', ''sd'', ''ld'']"
proof (intro conjI impI)
  show "(select_flv (Some (JObj kvs)) TIERS = Inr (Some (q, url))) =
     (find (\<lambda>t. usable (map_of kvs t)) TIERS = Some q \<and> flv_of (map_of kvs q) = Some url)"
  proof (cases "find (\<lambda>t. usable (map_of kvs t)) TIERS")
    case None
    then show ?thesis by (simp add: select_flv_find)
  next
    case (Some t)
    then have "usable (map_of kvs t)" by (auto simp: find_Some_iff)
    then obtain u where "flv_of (map_of kvs t) = Some u" using usable_flv by blast
    with Some show ?thesis by (auto simp: select_flv_find)
  qed
next
  show "(select_flv (Some (JObj kvs)) TIERS = Inr None) = (find (\<lambda>t. usable (map_of kvs t)) TIERS = None)"
  proof (cases "find (\<lambda>t. usable (map_of kvs t)) TIERS")
    case None
    then show ?thesis by (simp add: select_flv_find)
  next
    case (Some t)
    then have "usable (map_of kvs t)" by (auto simp: find_Some_iff)
    then obtain u where "flv_of (map_of kvs t) = Some u" using usable_flv by blast
    with Some show ?thesis by (simp add: select_flv_find)
  qed
next
  assume "flv_of v = Some (JStr s)"
  then show "usable v = (s \<noteq> [])" by (rule flv_string_usable)
next
  assume "distinct (map fst kvs) \<and> distinct (map fst kvs') \<and> set kvs = set kvs'"
  then have eq: "map_of kvs = map_of kvs'" by (simp add: map_of_inject_set)
  show "select_flv (Some (JObj kvs)) TIERS = select_flv (Some (JObj kvs')) TIERS"
    unfolding select_flv_find eq ..
next
  show "TIERS = [''uhd'', ''hd'', ''sd'', ''ld'']" by (simp add: TIERS_def)
qed

theorem C2_witness:
  "select_flv (Some (JObj manifest_C)) TIERS = Inr (Some (''uhd'', JStr ''u''))
   \<and> select_flv (Some (JObj (rev manifest_C))) TIERS = Inr (Some (''uhd'', JStr ''u''))
   \<and> usable (Some (JObj [(''main'', JObj [(''flv'', JStr ''u'')])]))
   \<and> select_flv (Some (JObj [])) TIERS = Inr None"
proof -
  have f: "find (\<lambda>t. usable (map_of manifest_C t)) TIERS = Some ''uhd''" by code_simp
  have g: "flv_of (map_of manifest_C ''uhd'') = Some (JStr ''u'')" by code_simp
  have d: "distinct (map fst manifest_C) \<and> distinct (map fst (rev manifest_C)) \<and> set manifest_C = set (rev manifest_C)"
    by (auto simp: manifest_C_def)
  have h: "flv_of (Some (JObj [(''main'', JObj [(''flv'', JStr ''u'')])])) = Some (JStr ''u'')" by code_simp
  have n: "find (\<lambda>t. usable (map_of [] t)) TIERS = None" by code_simp
  note T = C2_quality_selection [of manifest_C "''uhd''" "JStr ''u''" "Some (JObj [(''main'', JObj [(''flv'', JStr ''u'')])])" "''u''" "rev manifest_C"]
  note E = C2_quality_selection [of "[]"]
  from T f g have 1: "select_flv (Some (JObj manifest_C)) TIERS = Inr (Some (''uhd'', JStr ''u''))" by blast
  from T d have 2: "select_flv (Some (JObj manifest_C)) TIERS = select_flv (Some (JObj (rev manifest_C))) TIERS" by blast
  from T h have 3: "usable (Some (JObj [(''main'', JObj [(''flv'', JStr ''u'')])]))" by simp
  from E n have 4: "select_flv (Some (JObj [])) TIERS = Inr None" by blast
  from 1 2 3 4 show ?thesis by simp
qed


subsection \<open>The bounded event log\<close>

lemma LOG_CAP_pos: "0 < LOG_CAP"
  by (simp add: LOG_CAP_def)

lemma push_capped_drop:
  assumes "length xs \<le> LOG_CAP"
  shows "push_capped xs x = drop (length xs + 1 - LOG_CAP) (xs @ [x])"
proof (cases "length xs < LOG_CAP")
  case True
  then show ?thesis by (simp add: push_capped_def)
next
  case False
  with assms have eq: "length xs = LOG_CAP" by simp
  with LOG_CAP_pos obtain a as where xs: "xs = a # as" by (cases xs) auto
  have "length xs + 1 - LOG_CAP = 1" using eq by simp
  moreover have "push_capped xs x = as @ [x]" using eq xs by (simp add: push_capped_def Let_def)
  ultimately show ?thesis using xs by simp
qed

lemma length_push_capped: "length xs \<le> LOG_CAP \<Longrightarrow> length (push_capped xs x) \<le> LOG_CAP"
  by (auto simp: push_capped_def Let_def)

lemma foldl_push_capped:
  "length xs \<le> LOG_CAP \<Longrightarrow>
   foldl push_capped xs ys = drop (length xs + length ys - LOG_CAP) (xs @ ys)"
proof (induction ys arbitrary: xs)
  case Nil
  then show ?case by simp
next
  case (Cons y ys)
  have len: "length (push_capped xs y) \<le> LOG_CAP" using Cons.prems by (rule length_push_capped)
  have "foldl push_capped (xs) (y # ys) = foldl push_capped (push_capped xs y) ys" by simp
  also have "\<dots> = drop (length (push_capped xs y) + length ys - LOG_CAP) (push_capped xs y @ ys)"
    using Cons.IH [OF len] .
  also have "\<dots> = drop (length xs + length (y # ys) - LOG_CAP) (xs @ y # ys)"
  proof (cases "length xs < LOG_CAP")
    case True
    then have "push_capped xs y = xs @ [y]" by (simp add: push_capped_def)
    then show ?thesis by simp
  next
    case False
    with Cons.prems have eq: "length xs = LOG_CAP" by simp
    with LOG_CAP_pos obtain a as where xs: "xs = a # as" by (cases xs) auto
    have pc: "push_capped xs y = as @ [y]" using eq xs by (simp add: push_capped_def Let_def)
    have i1: "length (push_capped xs y) + length ys - LOG_CAP = length ys"
      using eq xs pc by simp
    have i2: "length xs + length (y # ys) - LOG_CAP = Suc (length ys)"
      using eq by simp
    have "drop (Suc (length ys)) ((a # as) @ y # ys) = drop (length ys) ((as @ [y]) @ ys)"
      by simp
    moreover have "push_capped (a # as) y = as @ [y]" using pc xs by simp
    ultimately have "drop (Suc (length ys)) (xs @ y # ys) = drop (length ys) (push_capped xs y @ ys)"
      using xs by simp
    then show ?thesis by (simp only: i1 i2)
  qed
  finally show ?case .
qed


lemma chat_listener_step:
  assumes "u \<notin> set Object_prototype_names" "commentLogs g \<noteq> None"
  shows "\<exists>g'. chat_listener u ev g = Inr g' \<and> commentLogs g' \<noteq> None
           \<and> the_log g' u = Some (push_capped (retained g u) (make_entry ev))
           \<and> (\<forall>v. v \<noteq> u \<longrightarrow> the_log g' v = the_log g v)
           \<and> commentWatchers g' = commentWatchers g"
proof -
  from assms(2) obtain logs where l: "commentLogs g = Some logs" by auto
  show ?thesis
  proof (cases "logs u")
    case None
    with assms(1) l show ?thesis
      by (simp add: chat_listener_def obj_get_def retained_def the_log_def)
  next
    case (Some es)
    with l show ?thesis
      by (simp add: chat_listener_def obj_get_def retained_def the_log_def)
  qed
qed

lemma chat_events_fold:
  assumes "u \<notin> set Object_prototype_names"
  shows "commentLogs g \<noteq> None \<Longrightarrow>
         \<exists>g'. chat_events u evs g = Inr g' \<and> commentLogs g' \<noteq> None
           \<and> retained g' u = foldl push_capped (retained g u) (map make_entry evs)
           \<and> (\<forall>v. v \<noteq> u \<longrightarrow> the_log g' v = the_log g v)
           \<and> commentWatchers g' = commentWatchers g"
proof (induction evs arbitrary: g)
  case Nil
  then show ?case by simp
next
  case (Cons ev evs)
  from chat_listener_step [OF assms Cons.prems, of ev]
  obtain g1 where g1: "chat_listener u ev g = Inr g1" "commentLogs g1 \<noteq> None"
      "the_log g1 u = Some (push_capped (retained g u) (make_entry ev))"
      "\<forall>v. v \<noteq> u \<longrightarrow> the_log g1 v = the_log g v"
      "commentWatchers g1 = commentWatchers g"
    by blast
  from g1(3) have r1: "retained g1 u = push_capped (retained g u) (make_entry ev)"
    by (simp add: retained_def)
  from Cons.IH [OF g1(2)]
  obtain g2 where g2: "chat_events u evs g1 = Inr g2" "commentLogs g2 \<noteq> None"
      "retained g2 u = foldl push_capped (retained g1 u) (map make_entry evs)"
      "\<forall>v. v \<noteq> u \<longrightarrow> the_log g2 v = the_log g1 v"
      "commentWatchers g2 = commentWatchers g1"
    by blast
  have "chat_events u (ev # evs) g = Inr g2" using g1(1) g2(1) by simp
  moreover have "retained g2 u = foldl push_capped (retained g u) (map make_entry (ev # evs))"
    using g2(3) r1 by simp
  moreover have "\<forall>v. v \<noteq> u \<longrightarrow> the_log g2 v = the_log g v" using g1(4) g2(4) by simp
  moreover have "commentWatchers g2 = commentWatchers g" using g1(5) g2(5) by simp
  ultimately show ?case using g2(2) by blast
qed

text \<open>
  Claim C3. For every account on which the listener can be registered (its name is not
  a member inherited from \<open>Object.prototype\<close>) and whose log holds at most 10000
  entries, running the listener on any sequence of chat events leaves the old entries
  followed by the new ones with just enough dropped from the front to keep 10000: the
  bound is preserved, eviction is oldest-first, and after 10000 or more events the log
  is exactly the last 10000 of them in order. Other accounts' logs are untouched.
\<close>

theorem C3_event_log_cap:
  assumes "u \<notin> set Object_prototype_names"
    and "commentLogs g \<noteq> None"
    and "length (retained g u) \<le> LOG_CAP"
  shows "\<exists>g'. chat_events u evs g = Inr g'
           \<and> retained g' u =
               drop (length (retained g u @ map make_entry evs) - LOG_CAP)
                    (retained g u @ map make_entry evs)
           \<and> length (retained g' u) \<le> LOG_CAP
           \<and> (LOG_CAP \<le> length evs \<longrightarrow>
                retained g' u = drop (length evs - LOG_CAP) (map make_entry evs))
           \<and> (\<forall>v. v \<noteq> u \<longrightarrow> the_log g' v = the_log g v)
           \<and> LOG_CAP = 10000"
proof -
  from chat_events_fold [OF assms(1) assms(2), of evs]
  obtain g' where g': "chat_events u evs g = Inr g'"
      "retained g' u = foldl push_capped (retained g u) (map make_entry evs)"
      "\<forall>v. v \<noteq> u \<longrightarrow> the_log g' v = the_log g v"
    by blast
  let ?old = "retained g u" and ?new = "map make_entry evs"
  have eq: "retained g' u = drop (length (?old @ ?new) - LOG_CAP) (?old @ ?new)"
    using g'(2) foldl_push_capped [OF assms(3), of ?new] by simp
  have len: "length (retained g' u) \<le> LOG_CAP"
    unfolding eq by simp
  have last: "retained g' u = drop (length evs - LOG_CAP) ?new" if "LOG_CAP \<le> length evs"
  proof -
    have "length (?old @ ?new) - LOG_CAP = length ?old + (length evs - LOG_CAP)"
      using that by simp
    then show ?thesis unfolding eq by simp
  qed
  from g'(1) eq len last g'(3) show ?thesis by (auto simp: LOG_CAP_def)
qed

theorem C3_witness:
  "''foo'' \<notin> set Object_prototype_names
   \<and> length (retained started ''foo'') \<le> LOG_CAP
   \<and> (\<exists>g'. chat_events ''foo'' (map numbered [0..<10050]) started = Inr g'
          \<and> retained g' ''foo'' = map (\<lambda>i. make_entry (numbered i)) [50..<10050]
          \<and> length (retained g' ''foo'') = 10000)"
proof -
  have a: "''foo'' \<notin> set Object_prototype_names" by (simp add: Object_prototype_names_def)
  have b: "commentLogs started \<noteq> None" by (simp add: started_def)
  have c: "length (retained started ''foo'') \<le> LOG_CAP"
    by (simp add: retained_def the_log_def started_def)
  from C3_event_log_cap [OF a b c, of "map numbered [0..<10050]"]
  obtain g' where g': "chat_events ''foo'' (map numbered [0..<10050]) started = Inr g'"
      "LOG_CAP \<le> length (map numbered [0..<10050]) \<longrightarrow>
         retained g' ''foo'' =
           drop (length (map numbered [0..<10050]) - LOG_CAP) (map make_entry (map numbered [0..<10050]))"
    by blast
  have d: "LOG_CAP \<le> length (map numbered [0..<10050])" by (simp add: LOG_CAP_def)
  have e: "length (map numbered [0..<10050]) - LOG_CAP = 50" by (simp add: LOG_CAP_def)
  have "retained g' ''foo'' = drop 50 (map make_entry (map numbered [0..<10050]))"
    using g'(2) d e by simp
  then have f: "retained g' ''foo'' = map (\<lambda>i. make_entry (numbered i)) [50..<10050]"
    by (simp del: upt_rec_numeral add: drop_map comp_def)
  then have "length (retained g' ''foo'') = 10000" by (simp del: upt_rec_numeral)
  with a c g'(1) f show ?thesis by blast
qed

subsection \<open>The cache of the user-info route\<close>

lemma foo_keys:
  "cache_key (Single ''@Foo '') = ''foo''"
  "cache_key (Single ''foo'') = ''foo''"
  "cache_key (Single ''FOO'') = ''foo''"
  by code_simp+

lemma foo_names:
  "info_username (Single ''@Foo '') = ''Foo''"
  "info_username (Single ''foo'') = ''foo''"
  "info_username (Single ''FOO'') = ''FOO''"
  by code_simp+


lemma userInfo_hit:
  assumes "method \<noteq> ''OPTIONS''" "info_username q \<noteq> []"
    and "cache_fresh c (cache_key q) (now_read e) = Some d"
  shows "userInfo e c method q = (Response 200 (d @ [(''cached'', Some (JBool True))]), [], c)"
  using assms by (simp add: userInfo_def cache_key_def Let_def)



lemma userInfo_miss_fetches:
  assumes "method \<noteq> ''OPTIONS''" "info_username q \<noteq> []"
    and "cache_fresh c (cache_key q) (now_read e) = None"
  shows "fst (snd (userInfo e c method q)) = [profile_url e (info_username q)]"
  using assms
  by (auto simp: userInfo_def cache_key_def Let_def split: sum.splits)

lemma userInfo_cache_after:
  "snd (snd (userInfo e c method q)) = c \<or>
   (\<exists>d. snd (snd (userInfo e c method q)) = cache_set c (cache_key q) (now_write e) d)"
  by (auto simp: userInfo_def cache_key_def Let_def split: sum.splits option.splits)

lemma cache_fresh_set:
  "cache_fresh (cache_set c k t0 v) k t = (if t - t0 < TTL_MS then Some v else None)"
  by (simp add: cache_fresh_def cache_set_def)

text \<open>
  Claim C4. For every key and value, an entry stored at \<open>t0\<close> is returned by a lookup
  at \<open>t\<close> when \<open>t - t0 < TTL_MS\<close>, and the handler then sends it with
  \<open>cached: true\<close> without fetching or touching the cache. When \<open>t - t0 \<ge> TTL_MS\<close> the
  lookup misses while the entry stays in the cache, the handler fetches again, and the
  entry is either kept as it is or replaced by the next store; a store on the same key
  overwrites it.
\<close>

theorem C4_cache_round_trip:
  "(t - t0 < TTL_MS \<longrightarrow> cache_fresh (cache_set c k t0 v) k t = Some v)
   \<and> (TTL_MS \<le> t - t0 \<longrightarrow>
         cache_fresh (cache_set c k t0 v) k t = None
         \<and> cache_set c k t0 v k = Some \<lparr> ts = t0, data = v \<rparr>
         \<and> cache_set (cache_set c k t0 v) k t v' k = Some \<lparr> ts = t, data = v' \<rparr>)
   \<and> (method \<noteq> ''OPTIONS'' \<and> info_username q \<noteq> [] \<and> now_read e - t0 < TTL_MS \<longrightarrow>
         userInfo e (cache_set c (cache_key q) t0 v) method q =
           (Response 200 (v @ [(''cached'', Some (JBool True))]), [], cache_set c (cache_key q) t0 v))
   \<and> (method \<noteq> ''OPTIONS'' \<and> info_username q \<noteq> [] \<and> TTL_MS \<le> now_read e - t0 \<longrightarrow>
         fst (snd (userInfo e (cache_set c (cache_key q) t0 v) method q)) = [profile_url e (info_username q)]
         \<and> (snd (snd (userInfo e (cache_set c (cache_key q) t0 v) method q)) = cache_set c (cache_key q) t0 v
            \<or> (\<exists>d. snd (snd (userInfo e (cache_set c (cache_key q) t0 v) method q)) =
                     cache_set c (cache_key q) (now_write e) d)))
   \<and> TTL_MS = 21600000"
proof (intro conjI impI)
  assume "t - t0 < TTL_MS"
  then show "cache_fresh (cache_set c k t0 v) k t = Some v" by (simp add: cache_fresh_set)
next
  assume "TTL_MS \<le> t - t0"
  then show "cache_fresh (cache_set c k t0 v) k t = None" by (simp add: cache_fresh_set)
next
  show "cache_set c k t0 v k = Some \<lparr> ts = t0, data = v \<rparr>" by (simp add: cache_set_def)
next
  show "cache_set (cache_set c k t0 v) k t v' k = Some \<lparr> ts = t, data = v' \<rparr>"
    by (simp add: cache_set_def)
next
  assume h: "method \<noteq> ''OPTIONS'' \<and> info_username q \<noteq> [] \<and> now_read e - t0 < TTL_MS"
  then have "cache_fresh (cache_set c (cache_key q) t0 v) (cache_key q) (now_read e) = Some v"
    by (simp add: cache_fresh_set)
  with h show "userInfo e (cache_set c (cache_key q) t0 v) method q =
           (Response 200 (v @ [(''cached'', Some (JBool True))]), [], cache_set c (cache_key q) t0 v)"
    by (simp add: userInfo_hit)
next
  assume h: "method \<noteq> ''OPTIONS'' \<and> info_username q \<noteq> [] \<and> TTL_MS \<le> now_read e - t0"
  then have "cache_fresh (cache_set c (cache_key q) t0 v) (cache_key q) (now_read e) = None"
    by (simp add: cache_fresh_set)
  with h show "fst (snd (userInfo e (cache_set c (cache_key q) t0 v) method q)) = [profile_url e (info_username q)]"
    by (simp add: userInfo_miss_fetches)
next
  have "cache_set (cache_set c (cache_key q) t0 v) (cache_key q) (now_write e) d
          = cache_set c (cache_key q) (now_write e) d" for d
    by (simp add: cache_set_def)
  with userInfo_cache_after [of e "cache_set c (cache_key q) t0 v" "method" q]
  show "snd (snd (userInfo e (cache_set c (cache_key q) t0 v) method q)) = cache_set c (cache_key q) t0 v
            \<or> (\<exists>d. snd (snd (userInfo e (cache_set c (cache_key q) t0 v) method q)) =
                     cache_set c (cache_key q) (now_write e) d)"
    by auto
next
  show "TTL_MS = 21600000" by (simp add: TTL_MS_def)
qed


theorem C4_witness:
  "cache_fresh (cache_set Map.empty ''foo'' 1000 demo_data) ''foo'' 2000 = Some demo_data
   \<and> cache_fresh (cache_set Map.empty ''foo'' 1000 demo_data) ''foo'' 21601000 = None
   \<and> userInfo (info_demo 2000 2001 page_B) (cache_set Map.empty ''foo'' 1000 demo_data) ''GET'' (Single ''@Foo '') =
        (Response 200 (demo_data @ [(''cached'', Some (JBool True))]), [],
         cache_set Map.empty ''foo'' 1000 demo_data)
   \<and> fst (snd (userInfo (info_demo 21601000 21601001 page_B)
                  (cache_set Map.empty ''foo'' 1000 demo_data) ''GET'' (Single ''FOO''))) =
        [''https://www.tiktok.com/@FOO'']"
proof -
  note F = C4_cache_round_trip [of 2000 1000 Map.empty "''foo''" demo_data demo_data "''GET''"
             "Single ''@Foo ''" "info_demo 2000 2001 page_B"]
  note S = C4_cache_round_trip [of 21601000 1000 Map.empty "''foo''" demo_data demo_data "''GET''"
             "Single ''FOO''" "info_demo 21601000 21601001 page_B"]
  have m: "''GET'' \<noteq> ''OPTIONS''" by simp
  have 1: "cache_fresh (cache_set Map.empty ''foo'' 1000 demo_data) ''foo'' 2000 = Some demo_data"
    using F by (simp add: TTL_MS_def)
  have 2: "cache_fresh (cache_set Map.empty ''foo'' 1000 demo_data) ''foo'' 21601000 = None"
    using S by (simp add: TTL_MS_def)
  have 3: "userInfo (info_demo 2000 2001 page_B) (cache_set Map.empty ''foo'' 1000 demo_data) ''GET'' (Single ''@Foo '') =
        (Response 200 (demo_data @ [(''cached'', Some (JBool True))]), [],
         cache_set Map.empty ''foo'' 1000 demo_data)"
    using F m by (simp add: foo_keys foo_names TTL_MS_def info_demo_def)
  have 4: "fst (snd (userInfo (info_demo 21601000 21601001 page_B)
                  (cache_set Map.empty ''foo'' 1000 demo_data) ''GET'' (Single ''FOO''))) =
        [profile_url (info_demo 21601000 21601001 page_B) (info_username (Single ''FOO''))]"
    using S m by (simp add: foo_keys foo_names TTL_MS_def info_demo_def)
  have 5: "profile_url (info_demo 21601000 21601001 page_B) ''FOO'' = ''https://www.tiktok.com/@FOO''"
    by (simp add: profile_url_def info_demo_def)
  from 1 2 3 4 5 show ?thesis by (simp add: foo_names)
qed





subsection \<open>Account normalization in the user-info route\<close>






subsection \<open>The start-comments handler\<close>

lemma startComments_no_watcher:
  assumes "\<not> invalid_username (Single username)"
    and "user_of username \<notin> set Object_prototype_names"
    and "\<forall>w. commentWatchers g = Some w \<longrightarrow> w (user_of username) = None"
  shows "the_log (snd (startComments connect g (Single username))) (user_of username) = Some []
         \<and> (\<forall>v. v \<noteq> user_of username \<longrightarrow>
               the_log (snd (startComments connect g (Single username))) v = the_log g v)"
proof -
  let ?w = "case commentWatchers g of None \<Rightarrow> Map.empty | Some w \<Rightarrow> w"
  from assms(3) have "?w (user_of username) = None" by (cases "commentWatchers g") auto
  with assms(2) have "obj_get ?w (user_of username) = Missing" by (simp add: obj_get_def)
  with assms(1) show ?thesis
    by (cases "connect (user_of username)"; cases "commentLogs g")
       (simp_all add: startComments_def Let_def the_log_def)
qed

lemma startComments_existing_watcher:
  assumes "\<not> invalid_username (Single username)"
    and "commentWatchers g = Some w" "w (user_of username) = Some conn"
  shows "startComments connect g (Single username) =
           (Response 200 [(''message'', Some (JStr ''Listener already running''))],
            \<lparr> commentWatchers = Some w,
              commentLogs = Some (case commentLogs g of None \<Rightarrow> Map.empty | Some l \<Rightarrow> l) \<rparr>)
         \<and> (\<forall>v. the_log (snd (startComments connect g (Single username))) v = the_log g v)"
  using assms
  by (cases "commentLogs g") (simp_all add: startComments_def Let_def obj_get_def the_log_def)

text \<open>
  Claim C9 holds for every account whose name is not a member inherited from
  \<open>Object.prototype\<close> (the two lemmas above). For the account \<open>constructor\<close> it fails:
  no watcher is registered, yet \<open>global.commentWatchers[user]\<close> is the inherited
  \<open>constructor\<close>, so the handler answers that a listener is already running, connects
  nothing and leaves the account without a log.
\<close>

theorem C9_inherited_name:
  "startComments (\<lambda>user. None) fresh_globals (Single ''constructor'') =
     (Response 200 [(''message'', Some (JStr ''Listener already running''))],
      \<lparr> commentWatchers = Some Map.empty, commentLogs = Some Map.empty \<rparr>)
   \<and> the_log (snd (startComments (\<lambda>user. None) fresh_globals (Single ''constructor''))) ''constructor'' = None
   \<and> commentWatchers fresh_globals = None"
proof -
  have v: "\<not> invalid_username (Single ''constructor'')" by code_simp
  have u: "user_of ''constructor'' = ''constructor''" by code_simp
  have o: "obj_get (Map.empty :: string \<rightharpoonup> connection) ''constructor'' = Inherited"
    by (simp add: obj_get_def Object_prototype_names_def)
  have "startComments (\<lambda>user. None) fresh_globals (Single ''constructor'') =
     (Response 200 [(''message'', Some (JStr ''Listener already running''))],
      \<lparr> commentWatchers = Some Map.empty, commentLogs = Some Map.empty \<rparr>)"
    using v by (simp add: startComments_def fresh_globals_def u o)
  then show ?thesis by (simp add: the_log_def fresh_globals_def)
qed

subsection \<open>The two extractors\<close>

text \<open>
  Claim C10. The live-status pattern only ever finds a document without a line
  terminator. For every markup that holds one script element of id \<open>SIGI_STATE\<close>, of
  type \<open>application/json\<close>, whose content up to the closing tag contains a line
  terminator: the live-status pattern finds no document, so the status query answers
  \<open>live = false\<close> with \<open>status\<close> and \<open>roomId\<close> \<open>null\<close>, while the user-info pattern finds
  the content and hands it to the parser; the two extractors differ on that markup.
\<close>

theorem C10_extractors_differ:
  assumes "markup = pre @ JSON_TAG @ content @ CLOSE_TAG @ post"
    and "occurrences OPEN_TAG markup = [length pre]"
    and "occurrences CLOSE_TAG content = []"
    and "\<exists>c \<in> set content. isLineTerminator c"
  shows "extract_live markup = None
       \<and> status_fields e markup = (False, Some JNull, Some JNull)
       \<and> (\<not> invalid_username (Single u) \<and> fetch e (live_url e (user_of u)) = Inr r \<and> body r = Inr markup \<longrightarrow>
            fst (checkLive e (Single u)) =
              Response 200 [(''username'', Some (JStr (user_of u))), (''live'', Some (JBool False)),
                            (''status'', Some JNull), (''roomId'', Some JNull)])
       \<and> extract_info markup = Some content
       \<and> info_document e' markup = Some (safeJsonParse e' content)
       \<and> extract_live markup \<noteq> extract_info markup
       \<and> (extract_live other = Some g \<longrightarrow> (\<forall>c \<in> set g. \<not> isLineTerminator c))"
proof -
  have one_line: "\<forall>c \<in> set g. \<not> isLineTerminator c" if "extract_live other = Some g"
    using extract_live_sound [OF that] by blast
  let ?rest = "JSON_TAG @ content @ CLOSE_TAG @ post"
  from assms(2) have only: "occurrences OPEN_TAG (pre @ ?rest) = [length pre]"
    by (simp add: assms(1))
  have "search match_live_at (pre @ ?rest) = match_live_at ?rest"
    using only match_live_needs_open by (rule search_single)
  also have "\<dots> = lazy_until_close dot (content @ CLOSE_TAG @ post)"
    by (rule match_live_at_JSON_TAG)
  also have "\<dots> = None" using assms(3,4) by (rule lazy_dot_multiline)
  finally have live: "extract_live markup = None" by (simp add: extract_live_def assms(1))
  have "search match_info_at (pre @ ?rest) = match_info_at ?rest"
    using only match_info_needs_open by (rule search_single)
  also have "\<dots> = lazy_until_close any_char (content @ CLOSE_TAG @ post)"
    by (rule match_info_at_JSON_TAG)
  also have "\<dots> = Some content"
    using assms(3) by (intro lazy_until_close_body) (simp_all add: any_char_def)
  finally have found: "search match_info_at markup = Some content" by (simp add: assms(1))
  from assms(4) have ne: "content \<noteq> []" by auto
  from found ne have info: "extract_info markup = Some content" by (simp add: extract_info_def)
  from live have sf: "status_fields e markup = (False, Some JNull, Some JNull)"
    by (simp add: status_fields_def)
  have resp: "fst (checkLive e (Single u)) =
              Response 200 [(''username'', Some (JStr (user_of u))), (''live'', Some (JBool False)),
                            (''status'', Some JNull), (''roomId'', Some JNull)]"
    if "\<not> invalid_username (Single u) \<and> fetch e (live_url e (user_of u)) = Inr r \<and> body r = Inr markup"
    using that sf by (simp add: checkLive_def Let_def)
  from info have doc: "info_document e' markup = Some (safeJsonParse e' content)"
    by (simp add: info_document_def)
  from live info have "extract_live markup \<noteq> extract_info markup" by simp
  with live sf resp info doc one_line show ?thesis by blast
qed

theorem C10_witness:
  "occurrences OPEN_TAG page_M = [length ''<html>'']
   \<and> occurrences CLOSE_TAG doc_M = []
   \<and> (\<exists>c \<in> set doc_M. isLineTerminator c)
   \<and> extract_live page_M = None
   \<and> fst (checkLive (demo_env page_M) (Single ''foo'')) =
       Response 200 [(''username'', Some (JStr ''foo'')), (''live'', Some (JBool False)),
                     (''status'', Some JNull), (''roomId'', Some JNull)]
   \<and> extract_info page_M = Some doc_M
   \<and> info_document (demo_env page_M) page_M = Some value_A"
proof -
  have a: "page_M = ''<html>'' @ JSON_TAG @ doc_M @ CLOSE_TAG @ ''</html>''" by (simp add: page_M_def)
  have b: "occurrences OPEN_TAG page_M = [length ''<html>'']" by code_simp
  have c: "occurrences CLOSE_TAG doc_M = []" by code_simp
  have d: "\<exists>c \<in> set doc_M. isLineTerminator c" by code_simp
  note T = C10_extractors_differ [OF a b c d, of "demo_env page_M" "''foo''"
             "\<lparr> ok = True, status = 200, body = Inr page_M \<rparr>" "demo_env page_M"]
  have v: "\<not> invalid_username (Single ''foo'') \<and>
           fetch (demo_env page_M) (live_url (demo_env page_M) (user_of ''foo'')) =
             Inr \<lparr> ok = True, status = 200, body = Inr page_M \<rparr> \<and>
           body \<lparr> ok = True, status = 200, body = Inr page_M \<rparr> = Inr page_M"
  proof (intro conjI)
    show "\<not> invalid_username (Single ''foo'')" by code_simp
  qed (simp_all add: demo_env_def)
  have u: "user_of ''foo'' = ''foo''" by code_simp
  have p: "safeJsonParse (demo_env page_M) doc_M = value_A"
    by (simp add: safeJsonParse_def demo_env_def)
  note t1 = T [THEN conjunct1]
  note t3 = T [THEN conjunct2, THEN conjunct2, THEN conjunct1, rule_format, OF v]
  note t4 = T [THEN conjunct2, THEN conjunct2, THEN conjunct2, THEN conjunct1]
  note t5 = T [THEN conjunct2, THEN conjunct2, THEN conjunct2, THEN conjunct2, THEN conjunct1]
  show ?thesis using b c d t1 t3 t4 t5 unfolding u p by (intro conjI)
qed

subsection \<open>The capture route\<close>

























end
